theory Spec2Isabelle
  imports Main
begin

section \<open>Data model (HistorySnapshot, SerializedSelection)\<close>

text \<open>
  A JavaScript string is modelled as a \<open>string\<close> (its length is the number of code
  units), a \<open>number\<close> that holds an index, a size or a clock reading as an \<open>int\<close>,
  and \<open>T | null\<close> as \<open>T option\<close>.  Offsets of a Range are unsigned and modelled as
  \<open>nat\<close>.
\<close>

record SerializedSelection =
  anchorPath :: "int list"
  anchorOffset :: nat
  focusPath :: "int list"
  focusOffset :: nat

record HistorySnapshot =
  html :: string
  selection :: "SerializedSelection option"
  timestamp :: int

section \<open>HistoryManager (core/HistoryManager.ts)\<close>

text \<open>
  The two stacks are JavaScript arrays: \<open>push\<close> appends at the end, \<open>pop\<close> removes
  the last element and \<open>shift\<close> removes the first one, so the top of a stack is the
  \<open>last\<close> element of the list.

  \<open>debounceTimer\<close> holds the handle returned by \<open>setTimeout\<close> (a positive integer in a
  browser, hence truthy) or \<open>null\<close>.  The host's timer queue is part of the state:
  \<open>timers\<close> maps the handle of every pending timer to the arguments captured by its
  \<open>doPush\<close> closure, and \<open>nextTimer\<close> is the next fresh handle.
\<close>

record HistoryManager =
  undoStack :: "HistorySnapshot list"
  redoStack :: "HistorySnapshot list"
  maxSize :: int
  debounceTimer :: "nat option"
  locked :: bool
  timers :: "nat \<Rightarrow> (string \<times> SerializedSelection option) option"
  nextTimer :: nat

definition DEFAULT_MAX_SIZE :: int where
  "DEFAULT_MAX_SIZE = 200"

text \<open>The constructor: both stacks empty, no timer, unlocked.\<close>

definition newHistoryManager :: "int \<Rightarrow> HistoryManager" where
  "newHistoryManager n =
     \<lparr>undoStack = [], redoStack = [], maxSize = n, debounceTimer = None,
      locked = False, timers = (\<lambda>_. None), nextTimer = 1\<rparr>"

text \<open>
  The closure \<open>doPush\<close> of \<open>push\<close>, with the captured \<open>html\<close> and \<open>selection\<close> as
  arguments; \<open>now\<close> is the value of \<open>Date.now()\<close> when the closure runs.
\<close>

definition doPush ::
  "HistoryManager \<Rightarrow> string \<Rightarrow> SerializedSelection option \<Rightarrow> int \<Rightarrow> HistoryManager" where
  "doPush s h sel now =
     (if undoStack s \<noteq> [] \<and> html (last (undoStack s)) = h then s
      else
        let s1 = s\<lparr>undoStack := undoStack s @ [\<lparr>html = h, selection = sel, timestamp = now\<rparr>]\<rparr>;
            s2 = s1\<lparr>redoStack := []\<rparr>
        in if int (length (undoStack s2)) > maxSize s2
           then s2\<lparr>undoStack := tl (undoStack s2)\<rparr>
           else s2)"

definition clearTimeout :: "HistoryManager \<Rightarrow> nat \<Rightarrow> HistoryManager" where
  "clearTimeout s t = s\<lparr>timers := (timers s)(t := None)\<rparr>"

text \<open>\<open>this.debounceTimer = setTimeout(doPush, DEBOUNCE_MS)\<close>.\<close>

definition setTimeout_doPush ::
  "HistoryManager \<Rightarrow> string \<Rightarrow> SerializedSelection option \<Rightarrow> HistoryManager" where
  "setTimeout_doPush s h sel =
     s\<lparr>timers := (timers s)(nextTimer s := Some (h, sel)),
       debounceTimer := Some (nextTimer s),
       nextTimer := Suc (nextTimer s)\<rparr>"

definition push ::
  "HistoryManager \<Rightarrow> string \<Rightarrow> SerializedSelection option \<Rightarrow> bool \<Rightarrow> int \<Rightarrow> HistoryManager" where
  "push s h sel immediate now =
     (if locked s then s
      else if immediate then
        doPush
          (case debounceTimer s of
             Some t \<Rightarrow> (clearTimeout s t)\<lparr>debounceTimer := None\<rparr>
           | None \<Rightarrow> s)
          h sel now
      else
        setTimeout_doPush
          (case debounceTimer s of Some t \<Rightarrow> clearTimeout s t | None \<Rightarrow> s)
          h sel)"

text \<open>
  The host runs the callback of timer \<open>t\<close> once its delay has elapsed, if the timer is
  still pending.  The callback is \<open>doPush\<close>; it does not test \<open>locked\<close> and does not
  reset \<open>debounceTimer\<close>.
\<close>

definition fire :: "HistoryManager \<Rightarrow> nat \<Rightarrow> int \<Rightarrow> HistoryManager" where
  "fire s t now =
     (case timers s t of
        None \<Rightarrow> s
      | Some (h, sel) \<Rightarrow> doPush (s\<lparr>timers := (timers s)(t := None)\<rparr>) h sel now)"

text \<open>The debounce settles: the timer held in \<open>debounceTimer\<close> fires, if it is pending.\<close>

definition settle :: "HistoryManager \<Rightarrow> int \<Rightarrow> HistoryManager" where
  "settle s now = (case debounceTimer s of None \<Rightarrow> s | Some t \<Rightarrow> fire s t now)"

definition undo ::
  "HistoryManager \<Rightarrow> string \<Rightarrow> SerializedSelection option \<Rightarrow> int
     \<Rightarrow> HistorySnapshot option \<times> HistoryManager" where
  "undo s currentHtml currentSelection now =
     (if length (undoStack s) = 0 then (None, s)
      else
        let s1 = s\<lparr>redoStack := redoStack s @
                   [\<lparr>html = currentHtml, selection = currentSelection, timestamp = now\<rparr>]\<rparr>
        in (Some (last (undoStack s1)), s1\<lparr>undoStack := butlast (undoStack s1)\<rparr>))"

definition redo ::
  "HistoryManager \<Rightarrow> string \<Rightarrow> SerializedSelection option \<Rightarrow> int
     \<Rightarrow> HistorySnapshot option \<times> HistoryManager" where
  "redo s currentHtml currentSelection now =
     (if length (redoStack s) = 0 then (None, s)
      else
        let s1 = s\<lparr>undoStack := undoStack s @
                   [\<lparr>html = currentHtml, selection = currentSelection, timestamp = now\<rparr>]\<rparr>
        in (Some (last (redoStack s1)), s1\<lparr>redoStack := butlast (redoStack s1)\<rparr>))"

definition canUndo :: "HistoryManager \<Rightarrow> bool" where
  "canUndo s = (length (undoStack s) > 0)"

definition canRedo :: "HistoryManager \<Rightarrow> bool" where
  "canRedo s = (length (redoStack s) > 0)"

definition clear :: "HistoryManager \<Rightarrow> HistoryManager" where
  "clear s =
     (let s1 = s\<lparr>undoStack := [], redoStack := []\<rparr>
      in case debounceTimer s1 of
           Some t \<Rightarrow> (clearTimeout s1 t)\<lparr>debounceTimer := None\<rparr>
         | None \<Rightarrow> s1)"

definition lock :: "HistoryManager \<Rightarrow> HistoryManager" where
  "lock s = s\<lparr>locked := True\<rparr>"

definition unlock :: "HistoryManager \<Rightarrow> HistoryManager" where
  "unlock s = s\<lparr>locked := False\<rparr>"

definition getUndoCount :: "HistoryManager \<Rightarrow> nat" where
  "getUndoCount s = length (undoStack s)"

definition getRedoCount :: "HistoryManager \<Rightarrow> nat" where
  "getRedoCount s = length (redoStack s)"

text \<open>
  Callers of a store: every public method and the firing of a timer, with the clock
  reading where the method calls \<open>Date.now()\<close>.
\<close>

datatype history_op =
    Push string "SerializedSelection option" bool int
  | Fire nat int
  | Undo string "SerializedSelection option" int
  | Redo string "SerializedSelection option" int
  | Clear
  | Lock
  | Unlock

fun step :: "HistoryManager \<Rightarrow> history_op \<Rightarrow> HistoryManager" where
  "step s (Push h sel immediate now) = push s h sel immediate now"
| "step s (Fire t now) = fire s t now"
| "step s (Undo h sel now) = snd (undo s h sel now)"
| "step s (Redo h sel now) = snd (redo s h sel now)"
| "step s Clear = clear s"
| "step s Lock = lock s"
| "step s Unlock = unlock s"

definition run :: "HistoryManager \<Rightarrow> history_op list \<Rightarrow> HistoryManager" where
  "run s ops = foldl step s ops"

section \<open>The document tree (platform DOM)\<close>

text \<open>
  DOM nodes are objects with identity, linked both ways (\<open>parentNode\<close>,
  \<open>childNodes\<close>), so the tree is a store indexed by node references.  A text node has
  character data; every other node has \<open>None\<close> there.
\<close>

type_synonym node = nat

record dom_tree =
  parentNode :: "node \<Rightarrow> node option"
  childNodes :: "node \<Rightarrow> node list"
  characterData :: "node \<Rightarrow> string option"

text \<open>
  Offsets and lengths cross the DOM interface as \<open>unsigned long\<close>: a number passed as
  an offset is taken modulo \<open>2^32\<close>.
\<close>

definition toUint32 :: "nat \<Rightarrow> nat" where
  "toUint32 n = n mod 4294967296"

text \<open>
  The length of a node in the DOM standard: the length of its data for a text node,
  the number of its children otherwise.  It is an \<open>unsigned long\<close>, hence at most
  \<open>2^32 - 1\<close>.
\<close>

definition nodeLength :: "dom_tree \<Rightarrow> node \<Rightarrow> nat" where
  "nodeLength d n =
     min (case characterData d n of Some s \<Rightarrow> length s | None \<Rightarrow> length (childNodes d n))
       4294967295"

text \<open>\<open>parent.removeChild(child)\<close>: the child leaves its parent's list and has no parent.\<close>

definition removeChild :: "dom_tree \<Rightarrow> node \<Rightarrow> node \<Rightarrow> dom_tree" where
  "removeChild d parent child =
     d\<lparr>parentNode := (parentNode d)(child := None),
       childNodes := (childNodes d)(parent := remove1 child (childNodes d parent))\<rparr>"

text \<open>The \<open>k\<close>-th ancestor of a node, if the chain of parents is that long.\<close>

fun nthParent :: "dom_tree \<Rightarrow> node \<Rightarrow> nat \<Rightarrow> node option" where
  "nthParent d n 0 = Some n"
| "nthParent d n (Suc k) =
     (case parentNode d n of None \<Rightarrow> None | Some p \<Rightarrow> nthParent d p k)"

text \<open>\<open>Array.prototype.indexOf\<close>: the first index holding the element, or \<open>-1\<close>.\<close>

fun indexOfFrom :: "'a list \<Rightarrow> 'a \<Rightarrow> int \<Rightarrow> int" where
  "indexOfFrom [] x k = - 1"
| "indexOfFrom (y # ys) x k = (if y = x then k else indexOfFrom ys x (k + 1))"

definition indexOf :: "'a list \<Rightarrow> 'a \<Rightarrow> int" where
  "indexOf xs x = indexOfFrom xs x 0"

section \<open>SelectionManager (core/SelectionManager.ts)\<close>

text \<open>
  The \<open>while\<close> loop of \<open>getNodePath\<close>, with the loop variables \<open>current\<close> and
  \<open>path\<close> as arguments.  The outer \<open>option\<close> is \<open>None\<close> when the loop does not
  return; the inner one is the \<open>number[] | null\<close> of the source.
\<close>

partial_function (option) getNodePath_loop ::
  "dom_tree \<Rightarrow> node \<Rightarrow> node \<Rightarrow> int list \<Rightarrow> int list option option" where
  "getNodePath_loop d root current path =
     (if current \<noteq> root then
        (case parentNode d current of
           None \<Rightarrow> Some None
         | Some parent \<Rightarrow>
             getNodePath_loop d root parent (indexOf (childNodes d parent) current # path))
      else Some (Some path))"

definition getNodePath :: "dom_tree \<Rightarrow> node \<Rightarrow> node \<Rightarrow> int list option option" where
  "getNodePath d root n = getNodePath_loop d root n []"

text \<open>
  \<open>getNodeFromPath\<close>: the second argument is the loop variable \<open>node\<close>, which starts
  at \<open>this.root\<close>.  \<open>node.childNodes[index]\<close> is \<open>undefined\<close> unless \<open>index\<close> is
  an index of the list.
\<close>

fun getNodeFromPath :: "dom_tree \<Rightarrow> node \<Rightarrow> int list \<Rightarrow> node option" where
  "getNodeFromPath d n [] = Some n"
| "getNodeFromPath d n (index # rest) =
     (if 0 \<le> index \<and> nat index < length (childNodes d n)
      then getNodeFromPath d (childNodes d n ! nat index) rest
      else None)"

text \<open>
  The live selection of the window: \<open>selectionObject\<close> tells whether
  \<open>window.getSelection()\<close> returns an object, \<open>ranges\<close> are its ranges
  (\<open>rangeCount\<close> is their number).
\<close>

record dom_range =
  startContainer :: node
  startOffset :: nat
  endContainer :: node
  endOffset :: nat

record selection_state =
  selectionObject :: bool
  ranges :: "dom_range list"

definition serialize ::
  "dom_tree \<Rightarrow> node \<Rightarrow> selection_state \<Rightarrow> SerializedSelection option option" where
  "serialize d root w =
     (if \<not> selectionObject w then Some None
      else case ranges w of
        [] \<Rightarrow> Some None
      | r # _ \<Rightarrow>
          (case getNodePath d root (startContainer r) of
             None \<Rightarrow> None
           | Some anchor \<Rightarrow>
               (case getNodePath d root (endContainer r) of
                  None \<Rightarrow> None
                | Some focus \<Rightarrow>
                    (case (anchor, focus) of
                       (Some ap, Some fp) \<Rightarrow>
                         Some (Some \<lparr>anchorPath = ap, anchorOffset = startOffset r,
                                     focusPath = fp, focusOffset = endOffset r\<rparr>)
                     | _ \<Rightarrow> Some None))))"

text \<open>
  Tree order of two boundary points under the same root, each given by the path of its
  node followed by its offset: the lexicographic order, a proper prefix coming first.
\<close>

fun before :: "int list \<Rightarrow> int list \<Rightarrow> bool" where
  "before [] [] = False"
| "before [] (y # ys) = True"
| "before (x # xs) [] = False"
| "before (x # xs) (y # ys) = (x < y \<or> (x = y \<and> before xs ys))"

text \<open>
  \<open>deserialize\<close>.  The calls into the platform follow the DOM standard:
  \<open>setStart\<close> and \<open>setEnd\<close> take the offset as an \<open>unsigned long\<close> (the stored
  number modulo \<open>2^32\<close>) and throw when it is greater than the node's length (the
  exception is caught and nothing is installed); \<open>setStart\<close> on a fresh range
  collapses it at the anchor, and \<open>setEnd\<close> moves the start as well when the focus
  lies before the anchor in tree order.  The editable area is attached to the window's
  document.
\<close>

definition deserialize ::
  "dom_tree \<Rightarrow> node \<Rightarrow> SerializedSelection \<Rightarrow> selection_state \<Rightarrow> selection_state" where
  "deserialize d root serialized w =
     (case getNodeFromPath d root (anchorPath serialized) of
        None \<Rightarrow> w
      | Some anchorNode \<Rightarrow>
          (case getNodeFromPath d root (focusPath serialized) of
             None \<Rightarrow> w
           | Some focusNode \<Rightarrow>
               let ao = toUint32 (anchorOffset serialized);
                   fo = toUint32 (focusOffset serialized)
               in
                 if ao > nodeLength d anchorNode then w
                 else if fo > nodeLength d focusNode then w
                 else if \<not> selectionObject w then w
                 else
                   w\<lparr>ranges :=
                     [if before (focusPath serialized @ [int fo]) (anchorPath serialized @ [int ao])
                      then \<lparr>startContainer = focusNode, startOffset = fo,
                            endContainer = focusNode, endOffset = fo\<rparr>
                      else \<lparr>startContainer = anchorNode, startOffset = ao,
                            endContainer = focusNode, endOffset = fo\<rparr>]\<rparr>))"

section \<open>The editor (class TinyTextEditor) and the undo and redo commands (registerBuiltinCommands)\<close>

text \<open>
  What the browser computes from the tree is a parameter: the \<open>innerHTML\<close> and
  \<open>innerText\<close> getters, and the \<open>innerHTML\<close> setter, which parses the string into
  new children, adjusts the live selection, and may throw.
\<close>

datatype exn = Thrown string

record platform =
  get_innerHTML :: "dom_tree \<Rightarrow> node \<Rightarrow> string"
  get_innerText :: "dom_tree \<Rightarrow> node \<Rightarrow> string"
  set_innerHTML ::
    "dom_tree \<Rightarrow> selection_state \<Rightarrow> node \<Rightarrow> string \<Rightarrow> exn + dom_tree \<times> selection_state"

text \<open>
  Calls that leave the core (listeners, the status bar, the toolbar, the console) are
  recorded in order.
\<close>

datatype effect =
    UpdateStatusBar
  | UpdatePlaceholder
  | ToolbarRefresh
  | EmitChange string string
  | OnChange string string
  | EmitHistoryUndo
  | EmitHistoryRedo
  | ConsoleError exn

record TinyTextEditor =
  editable :: node
  document :: dom_tree
  windowSelection :: selection_state
  history :: HistoryManager
  destroyed :: bool
  maxLength :: int
  onChange :: bool
  effects :: "effect list"

text \<open>
  \<open>_onContentChange\<close>.  The result is \<open>None\<close> only if \<open>serialize\<close> does not return.
\<close>

definition onContentChange :: "platform \<Rightarrow> TinyTextEditor \<Rightarrow> int \<Rightarrow> TinyTextEditor option" where
  "onContentChange P e now =
     (if destroyed e then Some e
      else if maxLength e > 0 \<and>
              int (length (get_innerText P (document e) (editable e))) > maxLength e
      then
        (let lastGood = (if getUndoCount (history e) > 0 then None else None) :: HistorySnapshot option
         in Some e)
      else
        let h = get_innerHTML P (document e) (editable e);
            text = get_innerText P (document e) (editable e);
            e1 = e\<lparr>effects := effects e @ [UpdateStatusBar, UpdatePlaceholder]\<rparr>
        in case serialize (document e1) (editable e1) (windowSelection e1) of
             None \<Rightarrow> None
           | Some sel \<Rightarrow>
               let e2 = e1\<lparr>history := push (history e1) h sel False now\<rparr>;
                   e3 = e2\<lparr>effects := effects e2 @ [EmitChange h text]\<rparr>;
                   e4 = (if onChange e3 then e3\<lparr>effects := effects e3 @ [OnChange h text]\<rparr> else e3)
               in Some (e4\<lparr>effects := effects e4 @ [ToolbarRefresh]\<rparr>))"

text \<open>
  The replay shared by the two commands, from \<open>history.lock()\<close> to the \<open>emit\<close>: the
  first component of the result is the exception that left \<open>execute\<close>, if any.
\<close>

definition replay ::
  "platform \<Rightarrow> TinyTextEditor \<Rightarrow> HistorySnapshot \<Rightarrow> effect \<Rightarrow> exn option \<times> TinyTextEditor" where
  "replay P e snapshot ev =
     (let e1 = e\<lparr>history := lock (history e)\<rparr>
      in case set_innerHTML P (document e1) (windowSelection e1) (editable e1) (html snapshot) of
           Inl x \<Rightarrow> (Some x, e1)
         | Inr (d', w') \<Rightarrow>
             let e2 = e1\<lparr>document := d', windowSelection := w'\<rparr>;
                 e3 = (case selection snapshot of
                         None \<Rightarrow> e2
                       | Some ss \<Rightarrow>
                           e2\<lparr>windowSelection :=
                                deserialize (document e2) (editable e2) ss (windowSelection e2)\<rparr>);
                 e4 = e3\<lparr>history := unlock (history e3)\<rparr>
             in (None, e4\<lparr>effects := effects e4 @ [ev]\<rparr>))"

text \<open>\<open>execute\<close> of the command \<open>undo\<close>.\<close>

definition undo_execute ::
  "platform \<Rightarrow> TinyTextEditor \<Rightarrow> int \<Rightarrow> (exn option \<times> TinyTextEditor) option" where
  "undo_execute P e now =
     (case serialize (document e) (editable e) (windowSelection e) of
        None \<Rightarrow> None
      | Some cur \<Rightarrow>
          (case undo (history e) (get_innerHTML P (document e) (editable e)) cur now of
             (None, h1) \<Rightarrow> Some (None, e\<lparr>history := h1\<rparr>)
           | (Some snapshot, h1) \<Rightarrow> Some (replay P (e\<lparr>history := h1\<rparr>) snapshot EmitHistoryUndo)))"

text \<open>\<open>execute\<close> of the command \<open>redo\<close>.\<close>

definition redo_execute ::
  "platform \<Rightarrow> TinyTextEditor \<Rightarrow> int \<Rightarrow> (exn option \<times> TinyTextEditor) option" where
  "redo_execute P e now =
     (case serialize (document e) (editable e) (windowSelection e) of
        None \<Rightarrow> None
      | Some cur \<Rightarrow>
          (case redo (history e) (get_innerHTML P (document e) (editable e)) cur now of
             (None, h1) \<Rightarrow> Some (None, e\<lparr>history := h1\<rparr>)
           | (Some snapshot, h1) \<Rightarrow> Some (replay P (e\<lparr>history := h1\<rparr>) snapshot EmitHistoryRedo)))"

text \<open>
  \<open>CommandManager.exec\<close> for the two commands: a disabled command is skipped, and an
  exception thrown by \<open>execute\<close> is caught and logged.
\<close>

definition exec_command ::
  "(HistoryManager \<Rightarrow> bool) \<Rightarrow> (exn option \<times> TinyTextEditor) option \<Rightarrow> TinyTextEditor
     \<Rightarrow> TinyTextEditor option" where
  "exec_command isEnabled executed e =
     (if \<not> isEnabled (history e) then Some e
      else case executed of
        None \<Rightarrow> None
      | Some (None, e') \<Rightarrow> Some e'
      | Some (Some x, e') \<Rightarrow> Some (e'\<lparr>effects := effects e' @ [ConsoleError x]\<rparr>))"

definition exec_undo :: "platform \<Rightarrow> TinyTextEditor \<Rightarrow> int \<Rightarrow> TinyTextEditor option" where
  "exec_undo P e now = exec_command canUndo (undo_execute P e now) e"

definition exec_redo :: "platform \<Rightarrow> TinyTextEditor \<Rightarrow> int \<Rightarrow> TinyTextEditor option" where
  "exec_redo P e now = exec_command canRedo (redo_execute P e now) e"

section \<open>Auxiliary notions used in the statements\<close>

text \<open>
  The end of \<open>doPush\<close>: an array longer than the capacity loses its first element.
\<close>

definition trimmed :: "HistorySnapshot list \<Rightarrow> int \<Rightarrow> HistorySnapshot list" where
  "trimmed xs n = (if int (length xs) > n then tl xs else xs)"

text \<open>
  The two stacks together hold at most \<open>maxSize\<close> snapshots.
\<close>

definition within_capacity :: "HistoryManager \<Rightarrow> bool" where
  "within_capacity s = (int (length (undoStack s)) + int (length (redoStack s)) \<le> maxSize s)"

text \<open>
  One committed push of a content, either synchronously (\<open>immediate = true\<close>) or
  debounced and then settled.
\<close>

definition commit ::
  "bool \<Rightarrow> HistoryManager \<Rightarrow> string \<times> SerializedSelection option \<times> int \<Rightarrow> HistoryManager" where
  "commit immediate s x =
     (case x of (c, sel, t) \<Rightarrow>
        if immediate then push s c sel True t else settle (push s c sel False t) t)"

text \<open>
  The two links of the tree agree: a node is among the children of its parent.
\<close>

definition linked :: "dom_tree \<Rightarrow> bool" where
  "linked d = (\<forall>c p. parentNode d c = Some p \<longrightarrow> c \<in> set (childNodes d p))"

text \<open>
  No node reached from \<open>root\<close> has \<open>root\<close> as a child: below the root the store
  is a tree.
\<close>

definition acyclic_below :: "dom_tree \<Rightarrow> node \<Rightarrow> bool" where
  "acyclic_below d root =
     (\<forall>q m. getNodeFromPath d root q = Some m \<longrightarrow> root \<notin> set (childNodes d m))"

text \<open>
  The range that \<open>setStart\<close> followed by \<open>setEnd\<close> leaves in a fresh range, for an
  anchor and a focus given by their nodes, their paths from the root and their offsets.
\<close>

definition installed ::
  "node \<Rightarrow> int list \<Rightarrow> nat \<Rightarrow> node \<Rightarrow> int list \<Rightarrow> nat \<Rightarrow> dom_range" where
  "installed a ap ao f fp fo =
     (if before (fp @ [int fo]) (ap @ [int ao])
      then \<lparr>startContainer = f, startOffset = fo, endContainer = f, endOffset = fo\<rparr>
      else \<lparr>startContainer = a, startOffset = ao, endContainer = f, endOffset = fo\<rparr>)"

text \<open>
  A collapsed range (a caret) and the serialized selection of a caret.
\<close>

definition caret :: "node \<Rightarrow> nat \<Rightarrow> dom_range" where
  "caret n off = \<lparr>startContainer = n, startOffset = off, endContainer = n, endOffset = off\<rparr>"

definition address :: "int list \<Rightarrow> nat \<Rightarrow> SerializedSelection" where
  "address p off = \<lparr>anchorPath = p, anchorOffset = off, focusPath = p, focusOffset = off\<rparr>"

text \<open>
  Only the timer held in \<open>debounceTimer\<close> can be pending.
\<close>

definition one_pending :: "HistoryManager \<Rightarrow> bool" where
  "one_pending s = (\<forall>t. debounceTimer s \<noteq> Some t \<longrightarrow> timers s t = None)"

section \<open>A document of five paragraphs and an editor on it\<close>

text \<open>
  The root is node 0, the paragraphs are the nodes 1 to 5, and paragraph \<open>k\<close> has one
  text node \<open>k + 5\<close>.
\<close>

definition doc5 :: dom_tree where
  "doc5 =
     \<lparr>parentNode = (\<lambda>n. if 1 \<le> n \<and> n \<le> 5 then Some 0
                        else if 6 \<le> n \<and> n \<le> 10 then Some (n - 5) else None),
      childNodes = (\<lambda>n. if n = 0 then [1, 2, 3, 4, 5]
                        else if 1 \<le> n \<and> n \<le> 5 then [n + 5] else []),
      characterData = [6 \<mapsto> ''alpha'', 7 \<mapsto> ''bravo'', 8 \<mapsto> ''charlie'',
                       9 \<mapsto> ''delta'', 10 \<mapsto> ''echo'']\<rparr>"

text \<open>
  A browser for such documents whose \<open>innerHTML\<close> setter accepts the empty string only
  and throws on any other (as under a Trusted Types policy that rejects the markup).
\<close>

definition paragraphText :: "dom_tree \<Rightarrow> node \<Rightarrow> string" where
  "paragraphText d p =
     concat (map (\<lambda>t. case characterData d t of Some s \<Rightarrow> s | None \<Rightarrow> []) (childNodes d p))"

definition strictPlatform :: platform where
  "strictPlatform =
     \<lparr>get_innerHTML = (\<lambda>d n. concat (map (\<lambda>p. ''<p>'' @ paragraphText d p @ ''</p>'') (childNodes d n))),
      get_innerText = (\<lambda>d n. concat (map (\<lambda>p. paragraphText d p @ [CHR 0x0A]) (childNodes d n))),
      set_innerHTML = (\<lambda>d w n s.
         if s = [] then Inr (d\<lparr>childNodes := (childNodes d)(n := [])\<rparr>, w\<lparr>ranges := []\<rparr>)
         else Inl (Thrown ''TypeError''))\<rparr>"

text \<open>
  An editor on the document: the constructor has pushed the empty initial snapshot, and
  one debounced change has been committed.
\<close>

definition editor5 :: TinyTextEditor where
  "editor5 =
     \<lparr>editable = 0, document = doc5,
      windowSelection = \<lparr>selectionObject = True, ranges = []\<rparr>,
      history = run (newHistoryManager DEFAULT_MAX_SIZE)
                  [Push [] None True 0, Push ''<p>alpha</p>'' None False 10, Fire 1 310],
      destroyed = False, maxLength = 0, onChange = False, effects = []\<rparr>"

text \<open>
  Eight edits with distinct contents.
\<close>

definition eight_edits :: "(string \<times> SerializedSelection option \<times> int) list" where
  "eight_edits =
     [(''A'', None, 1), (''B'', None, 2), (''C'', None, 3), (''D'', None, 4),
      (''E'', None, 5), (''F'', None, 6), (''G'', None, 7), (''H'', None, 8)]"

section \<open>Frame lemmas of the store\<close>

lemma doPush_undoStack:
  "undoStack (doPush s h sel now) =
     (if undoStack s \<noteq> [] \<and> html (last (undoStack s)) = h then undoStack s
      else if int (length (undoStack s)) + 1 > maxSize s
        then tl (undoStack s @ [\<lparr>html = h, selection = sel, timestamp = now\<rparr>])
        else undoStack s @ [\<lparr>html = h, selection = sel, timestamp = now\<rparr>])"
  by (simp add: doPush_def Let_def)

lemma doPush_redoStack:
  "redoStack (doPush s h sel now) =
     (if undoStack s \<noteq> [] \<and> html (last (undoStack s)) = h then redoStack s else [])"
  by (simp add: doPush_def Let_def)

lemma doPush_frame:
  "maxSize (doPush s h sel now) = maxSize s"
  "locked (doPush s h sel now) = locked s"
  "debounceTimer (doPush s h sel now) = debounceTimer s"
  "timers (doPush s h sel now) = timers s"
  "nextTimer (doPush s h sel now) = nextTimer s"
  by (simp_all add: doPush_def Let_def)

lemma doPush_undoStack_cong:
  "undoStack s' = undoStack s \<Longrightarrow> maxSize s' = maxSize s \<Longrightarrow>
     undoStack (doPush s' h sel now) = undoStack (doPush s h sel now)"
  by (simp only: doPush_undoStack)

lemma doPush_redoStack_cong:
  "undoStack s' = undoStack s \<Longrightarrow> redoStack s' = redoStack s \<Longrightarrow>
     redoStack (doPush s' h sel now) = redoStack (doPush s h sel now)"
  by (simp only: doPush_redoStack)

lemma doPush_dup:
  "undoStack s \<noteq> [] \<Longrightarrow> html (last (undoStack s)) = h \<Longrightarrow> doPush s h sel now = s"
  by (simp add: doPush_def)

lemma doPush_commits:
  assumes "undoStack s = [] \<or> html (last (undoStack s)) \<noteq> c"
  shows "undoStack (doPush s c sel t) =
      trimmed (undoStack s @ [\<lparr>html = c, selection = sel, timestamp = t\<rparr>]) (maxSize s)"
  using assms by (auto simp add: doPush_undoStack trimmed_def)

lemma push_locked: "locked s \<Longrightarrow> push s h sel immediate now = s"
  by (simp add: push_def)

lemma push_immediate_undoStack:
  "\<not> locked s \<Longrightarrow> undoStack (push s h sel True now) = undoStack (doPush s h sel now)"
  unfolding push_def
  by (cases "debounceTimer s") (auto simp: clearTimeout_def intro!: doPush_undoStack_cong)

lemma push_immediate_redoStack:
  "\<not> locked s \<Longrightarrow> redoStack (push s h sel True now) = redoStack (doPush s h sel now)"
  unfolding push_def
  by (cases "debounceTimer s") (auto simp: clearTimeout_def intro!: doPush_redoStack_cong)

lemma push_frame:
  "maxSize (push s h sel immediate now) = maxSize s"
  "locked (push s h sel immediate now) = locked s"
  by (simp_all add: push_def doPush_frame clearTimeout_def setTimeout_doPush_def split: option.splits)

lemma push_deferred_stacks:
  "undoStack (push s h sel False now) = undoStack s"
  "redoStack (push s h sel False now) = redoStack s"
  by (simp_all add: push_def clearTimeout_def setTimeout_doPush_def split: option.splits)

lemma settle_push_deferred:
  "\<not> locked s \<Longrightarrow>
     settle (push s h sel False t0) t1 =
       doPush ((push s h sel False t0)\<lparr>timers := (timers (push s h sel False t0))(the (debounceTimer (push s h sel False t0)) := None)\<rparr>) h sel t1"
  by (simp add: settle_def push_def fire_def setTimeout_doPush_def)

lemma settle_push_deferred_undoStack:
  "\<not> locked s \<Longrightarrow>
     undoStack (settle (push s h sel False t0) t1) = undoStack (doPush s h sel t1)"
  by (subst settle_push_deferred) (auto simp: push_deferred_stacks push_frame intro!: doPush_undoStack_cong)

lemma settle_push_deferred_redoStack:
  "\<not> locked s \<Longrightarrow>
     redoStack (settle (push s h sel False t0) t1) = redoStack (doPush s h sel t1)"
  by (subst settle_push_deferred) (auto simp: push_deferred_stacks push_frame intro!: doPush_redoStack_cong)

lemma settle_frame:
  "maxSize (settle s now) = maxSize s"
  "locked (settle s now) = locked s"
  by (simp_all add: settle_def fire_def doPush_frame split: option.splits prod.splits)

lemma settle_settle: "settle (settle s t) t' = settle s t"
proof (cases "debounceTimer s")
  case None
  then show ?thesis by (simp add: settle_def)
next
  case (Some tm)
  show ?thesis
  proof (cases "timers s tm")
    case None
    with Some show ?thesis by (simp add: settle_def fire_def)
  next
    case (Some a)
    obtain h sel where a: "a = (h, sel)" by (cases a)
    let ?s' = "doPush (s\<lparr>timers := (timers s)(tm := None)\<rparr>) h sel t"
    have "settle s t = ?s'"
      using \<open>debounceTimer s = Some tm\<close> Some a by (simp add: settle_def fire_def)
    moreover have "debounceTimer ?s' = Some tm" "timers ?s' tm = None"
      using \<open>debounceTimer s = Some tm\<close> by (simp_all add: doPush_frame)
    then have "settle ?s' t' = ?s'"
      by (simp add: settle_def fire_def)
    ultimately show ?thesis by simp
  qed
qed

lemma tl_snoc_nonempty: "xs \<noteq> [] \<Longrightarrow> tl (xs @ [x]) \<noteq> [] \<and> last (tl (xs @ [x])) = x"
  by (cases xs) simp_all

lemma doPush_top:
  assumes "0 < maxSize s"
  shows "undoStack (doPush s h sel now) \<noteq> [] \<and> html (last (undoStack (doPush s h sel now))) = h"
proof (cases "undoStack s = []")
  case True
  with assms show ?thesis by (simp add: doPush_undoStack)
next
  case False
  then show ?thesis by (simp add: doPush_undoStack tl_snoc_nonempty)
qed

lemma doPush_idem_undoStack:
  "undoStack (doPush (doPush s h sel1 t1) h sel2 t2) = undoStack (doPush s h sel1 t1)"
proof (cases "0 < maxSize s")
  case True
  from doPush_top[OF True] show ?thesis by (simp add: doPush_dup)
next
  case False
  show ?thesis
  proof (cases "undoStack (doPush s h sel1 t1) = []")
    case True
    with False show ?thesis
      by (simp add: doPush_undoStack[of "doPush s h sel1 t1"] doPush_frame)
  next
    case nonempty: False
    have "html (last (undoStack (doPush s h sel1 t1))) = h"
    proof (cases "undoStack s = []")
      case True
      with False nonempty show ?thesis by (simp add: doPush_undoStack)
    next
      case False
      then show ?thesis by (simp add: doPush_undoStack tl_snoc_nonempty)
    qed
    with nonempty show ?thesis by (simp add: doPush_dup)
  qed
qed

lemma doPush_idem_redoStack:
  "redoStack (doPush (doPush s h sel1 t1) h sel2 t2) = redoStack (doPush s h sel1 t1)"
proof (cases "undoStack s \<noteq> [] \<and> html (last (undoStack s)) = h")
  case True
  then show ?thesis by (simp add: doPush_dup)
next
  case False
  then have "redoStack (doPush s h sel1 t1) = []"
    by (auto simp add: doPush_redoStack)
  then show ?thesis
    by (simp add: doPush_redoStack[of "doPush s h sel1 t1"])
qed

section \<open>The capacity invariant\<close>

lemma doPush_within: "within_capacity s \<Longrightarrow> within_capacity (doPush s h sel now)"
  by (auto simp add: within_capacity_def doPush_def Let_def)

lemma step_within:
  assumes "within_capacity s"
  shows "within_capacity (step s a) \<and> maxSize (step s a) = maxSize s"
proof (cases a)
  case (Push h sel immediate now)
  show ?thesis
  proof (cases "locked s")
    case True
    with assms Push show ?thesis by (simp add: push_locked)
  next
    case False
    have "within_capacity (push s h sel immediate now)"
    proof (cases immediate)
      case True
      have "within_capacity (doPush s h sel now)" using assms by (rule doPush_within)
      then show ?thesis
        using False True
        by (simp add: within_capacity_def push_immediate_undoStack push_immediate_redoStack push_frame doPush_frame)
    next
      case False
      with assms show ?thesis
        by (simp add: within_capacity_def push_deferred_stacks push_frame)
    qed
    with Push show ?thesis by (simp add: push_frame)
  qed
next
  case (Fire t now)
  show ?thesis
  proof (cases "timers s t")
    case None
    with assms Fire show ?thesis by (simp add: fire_def)
  next
    case (Some a)
    obtain h sel where a: "a = (h, sel)" by (cases a)
    have "within_capacity (s\<lparr>timers := (timers s)(t := None)\<rparr>)"
      using assms by (simp add: within_capacity_def)
    then have "within_capacity (doPush (s\<lparr>timers := (timers s)(t := None)\<rparr>) h sel now)"
      by (rule doPush_within)
    with Fire Some a show ?thesis by (simp add: fire_def doPush_frame)
  qed
next
  case (Undo h sel now)
  with assms show ?thesis
    by (cases "undoStack s" rule: rev_cases) (simp_all add: undo_def within_capacity_def Let_def)
next
  case (Redo h sel now)
  with assms show ?thesis
    by (cases "redoStack s" rule: rev_cases) (simp_all add: redo_def within_capacity_def Let_def)
next
  case Clear
  with assms show ?thesis
    by (simp add: clear_def within_capacity_def clearTimeout_def Let_def split: option.splits)
next
  case Lock
  with assms show ?thesis by (simp add: lock_def within_capacity_def)
next
  case Unlock
  with assms show ?thesis by (simp add: unlock_def within_capacity_def)
qed

lemma run_within:
  "within_capacity s \<Longrightarrow> within_capacity (run s ops) \<and> maxSize (run s ops) = maxSize s"
  unfolding run_def
proof (induction ops arbitrary: s)
  case Nil
  then show ?case by simp
next
  case (Cons a ops)
  from step_within [OF Cons.prems, of a] Cons.IH [of "step s a"]
  show ?case by simp
qed

lemma run_bounded:
  assumes "0 \<le> n"
  shows "int (length (undoStack (run (newHistoryManager n) ops))) \<le> n"
proof -
  have "within_capacity (newHistoryManager n)"
    using assms by (simp add: within_capacity_def newHistoryManager_def)
  from run_within [OF this, of ops] show ?thesis
    by (simp add: within_capacity_def newHistoryManager_def)
qed

lemma commit_frame:
  "locked (commit i s x) = locked s" "maxSize (commit i s x) = maxSize s"
  by (simp_all add: commit_def push_frame settle_frame split: prod.splits)

lemma commit_undoStack:
  "\<not> locked s \<Longrightarrow> undoStack (commit i s (c, sel, t)) = undoStack (doPush s c sel t)"
  by (simp add: commit_def push_immediate_undoStack settle_push_deferred_undoStack)

lemma tl_drop_snoc:
  "k < length cs \<Longrightarrow> tl (drop k cs @ [c]) = drop (Suc k) (cs @ [c])"
  by (simp add: drop_Suc tl_drop tl_append2)

lemma commits_contents:
  assumes "1 \<le> n" and "distinct (map fst xs)"
  shows "\<not> locked (foldl (commit i) (newHistoryManager n) xs) \<and>
         maxSize (foldl (commit i) (newHistoryManager n) xs) = n \<and>
         map html (undoStack (foldl (commit i) (newHistoryManager n) xs)) =
           drop (length xs - nat n) (map fst xs)"
  using assms(2)
proof (induction xs rule: rev_induct)
  case Nil
  show ?case by (simp add: newHistoryManager_def)
next
  case (snoc x xs)
  let ?s = "foldl (commit i) (newHistoryManager n) xs"
  let ?cs = "map fst xs"
  obtain c sel t where x: "x = (c, sel, t)" by (cases x)
  from snoc.prems have dist: "distinct ?cs" and fresh: "c \<notin> set ?cs"
    by (simp_all add: x)
  from snoc.IH [OF dist] have l: "\<not> locked ?s" and m: "maxSize ?s = n"
    and H: "map html (undoStack ?s) = drop (length xs - nat n) ?cs"
    by simp_all
  have len: "length (undoStack ?s) = length xs - (length xs - nat n)"
    using arg_cong [OF H, of length] by simp
  have "\<not> (undoStack ?s \<noteq> [] \<and> html (last (undoStack ?s)) = c)"
  proof
    assume a: "undoStack ?s \<noteq> [] \<and> html (last (undoStack ?s)) = c"
    then have "c = last (map html (undoStack ?s))" by (simp add: last_map)
    also have "\<dots> \<in> set (map html (undoStack ?s))"
      using a by (intro last_in_set) simp
    also have "\<dots> \<subseteq> set ?cs" unfolding H by (rule set_drop_subset)
    finally show False using fresh by simp
  qed
  then have "undoStack ?s = [] \<or> html (last (undoStack ?s)) \<noteq> c" by blast
  note nodup = doPush_commits [OF this, of sel t]
  have u: "undoStack (commit i ?s x) = undoStack (doPush ?s c sel t)"
    using l by (simp add: x commit_undoStack)
  have "map html (undoStack (doPush ?s c sel t)) = drop (length (xs @ [x]) - nat n) (map fst (xs @ [x]))"
  proof (cases "length xs < nat n")
    case True
    then have "\<not> int (length (undoStack ?s)) + 1 > maxSize ?s"
      using len m by linarith
    with H True show ?thesis
      by (simp add: nodup trimmed_def x)
  next
    case False
    then have k: "length xs - nat n < length ?cs" using assms(1) by simp
    have "int (length (undoStack ?s)) + 1 > maxSize ?s"
      using False len m assms(1) by simp
    then have "map html (undoStack (doPush ?s c sel t)) = tl (map html (undoStack ?s) @ [c])"
      by (simp add: nodup trimmed_def map_tl)
    also have "\<dots> = drop (Suc (length xs - nat n)) (?cs @ [c])"
      unfolding H using k by (rule tl_drop_snoc)
    also have "Suc (length xs - nat n) = length (xs @ [x]) - nat n"
      using False by simp
    finally show ?thesis by (simp add: x)
  qed
  with u l m show ?case by (simp add: commit_frame)
qed

section \<open>Paths in the document tree\<close>

lemma indexOfFrom_found:
  "x \<in> set xs \<Longrightarrow>
     k \<le> indexOfFrom xs x k \<and> nat (indexOfFrom xs x k - k) < length xs \<and>
     xs ! nat (indexOfFrom xs x k - k) = x"
proof (induction xs arbitrary: k)
  case Nil
  then show ?case by simp
next
  case (Cons y ys)
  show ?case
  proof (cases "y = x")
    case True
    then show ?thesis by simp
  next
    case False
    with Cons.prems have "x \<in> set ys" by simp
    let ?j = "indexOfFrom ys x (k + 1)"
    from Cons.IH [OF \<open>x \<in> set ys\<close>, of "k + 1"]
    have j: "k + 1 \<le> ?j" "nat (?j - (k + 1)) < length ys" "ys ! nat (?j - (k + 1)) = x"
      by simp_all
    from j(1) have "nat (?j - k) = Suc (nat (?j - (k + 1)))" by linarith
    with j False show ?thesis by simp
  qed
qed

lemma indexOf_found:
  assumes "x \<in> set xs"
  shows "0 \<le> indexOf xs x" "nat (indexOf xs x) < length xs" "xs ! nat (indexOf xs x) = x"
  using indexOfFrom_found [OF assms, of 0] by (simp_all add: indexOf_def)

lemma getNodeFromPath_append:
  "getNodeFromPath d n (p @ q) =
     (case getNodeFromPath d n p of None \<Rightarrow> None | Some m \<Rightarrow> getNodeFromPath d m q)"
  by (induction p arbitrary: n) simp_all

lemma getNodePath_loop_returns:
  assumes "linked d"
    and "nthParent d n k = Some root"
  shows "\<exists>p. getNodePath_loop d root n acc = Some (Some (p @ acc)) \<and>
             getNodeFromPath d root p = Some n"
  using assms(2)
proof (induction k arbitrary: n acc)
  case 0
  then have "n = root" by simp
  then show ?case by (subst getNodePath_loop.simps) simp
next
  case (Suc k)
  show ?case
  proof (cases "n = root")
    case True
    then show ?thesis by (subst getNodePath_loop.simps) simp
  next
    case False
    from Suc.prems obtain pa where pa: "parentNode d n = Some pa" and up: "nthParent d pa k = Some root"
      by (auto split: option.splits)
    let ?i = "indexOf (childNodes d pa) n"
    from assms(1) pa have mem: "n \<in> set (childNodes d pa)" by (simp add: linked_def)
    from Suc.IH [OF up, of "?i # acc"] obtain p' where
      l: "getNodePath_loop d root pa (?i # acc) = Some (Some (p' @ ?i # acc))"
      and r: "getNodeFromPath d root p' = Some pa" by blast
    have "getNodePath_loop d root n acc = Some (Some ((p' @ [?i]) @ acc))"
      using False pa l by (subst getNodePath_loop.simps) simp
    moreover have "getNodeFromPath d root (p' @ [?i]) = Some n"
      using r indexOf_found [OF mem] by (simp add: getNodeFromPath_append)
    ultimately show ?thesis by blast
  qed
qed

lemma before_irrefl: "\<not> before p p"
  by (induction p) simp_all

lemma nodeLength_uint32: "off \<le> nodeLength d n \<Longrightarrow> toUint32 off = off"
  by (simp add: nodeLength_def toUint32_def)

lemma deserialize_resolved:
  assumes "getNodeFromPath d root (anchorPath s) = Some a"
    and "getNodeFromPath d root (focusPath s) = Some f"
  shows "deserialize d root s w =
           (if toUint32 (anchorOffset s) \<le> nodeLength d a \<and>
               toUint32 (focusOffset s) \<le> nodeLength d f \<and> selectionObject w
            then w\<lparr>ranges := [installed a (anchorPath s) (toUint32 (anchorOffset s))
                                   f (focusPath s) (toUint32 (focusOffset s))]\<rparr>
            else w)"
  using assms by (auto simp add: deserialize_def installed_def Let_def)

lemma deserialize_unresolved:
  assumes "getNodeFromPath d root (anchorPath s) = None \<or> getNodeFromPath d root (focusPath s) = None"
  shows "deserialize d root s w = w"
  using assms by (auto simp add: deserialize_def split: option.splits)

lemma installed_caret: "installed n p off n p off = caret n off"
  by (simp add: installed_def caret_def before_irrefl)

lemma deserialize_address:
  assumes "getNodeFromPath d root p = Some n"
  shows "deserialize d root (address p off) w =
           (if toUint32 off \<le> nodeLength d n \<and> selectionObject w
            then w\<lparr>ranges := [caret n (toUint32 off)]\<rparr> else w)"
  using deserialize_resolved [of d root "address p off" n n w] assms
  by (simp add: address_def installed_caret)

lemma getNodeFromPath_removeChild_other:
  assumes "\<forall>q m. getNodeFromPath d n q = Some m \<longrightarrow> root \<notin> set (childNodes d m)"
    and "n \<noteq> root"
  shows "getNodeFromPath (removeChild d root c0) n p = getNodeFromPath d n p"
  using assms
proof (induction p arbitrary: n)
  case Nil
  show ?case by simp
next
  case (Cons j p)
  have same: "childNodes (removeChild d root c0) n = childNodes d n"
    using Cons.prems(2) by (simp add: removeChild_def)
  show ?case
  proof (cases "0 \<le> j \<and> nat j < length (childNodes d n)")
    case False
    then show ?thesis by (auto simp add: same)
  next
    case True
    let ?m = "childNodes d n ! nat j"
    have "getNodeFromPath d n [] = Some n" by simp
    with Cons.prems(1) have "root \<notin> set (childNodes d n)" by blast
    with True have ne: "?m \<noteq> root" by (metis nth_mem)
    have below: "\<forall>q m. getNodeFromPath d ?m q = Some m \<longrightarrow> root \<notin> set (childNodes d m)"
    proof (intro allI impI)
      fix q m
      assume "getNodeFromPath d ?m q = Some m"
      with True have "getNodeFromPath d n (j # q) = Some m" by simp
      with Cons.prems(1) show "root \<notin> set (childNodes d m)" by blast
    qed
    from Cons.IH [OF below ne] True show ?thesis by (simp add: same)
  qed
qed

lemma getNodeFromPath_first_removed:
  assumes "childNodes d root = c0 # cs" and "acyclic_below d root" and "0 \<le> i"
  shows "getNodeFromPath (removeChild d root c0) root (i # p) = getNodeFromPath d root ((i + 1) # p)"
proof -
  have kids: "childNodes (removeChild d root c0) root = cs"
    using assms(1) by (simp add: removeChild_def)
  show ?thesis
  proof (cases "nat i < length cs")
    case False
    with assms(3) have "\<not> nat (i + 1) < length (c0 # cs)" by simp
    with False assms(1) show ?thesis by (simp add: kids)
  next
    case True
    let ?m = "cs ! nat i"
    have idx: "(c0 # cs) ! nat (i + 1) = ?m" "nat (i + 1) < length (c0 # cs)" "0 \<le> i + 1"
      using assms(3) True by (simp_all add: nat_add_distrib)
    have "getNodeFromPath d root [] = Some root" by simp
    with assms(2) have "root \<notin> set (childNodes d root)" unfolding acyclic_below_def by blast
    with assms(1) True have ne: "?m \<noteq> root" by (metis list.set_intros(2) nth_mem)
    have below: "\<forall>q m. getNodeFromPath d ?m q = Some m \<longrightarrow> root \<notin> set (childNodes d m)"
    proof (intro allI impI)
      fix q m
      assume "getNodeFromPath d ?m q = Some m"
      with idx assms(1) have "getNodeFromPath d root ((i + 1) # q) = Some m" by simp
      with assms(2) show "root \<notin> set (childNodes d m)" unfolding acyclic_below_def by blast
    qed
    have "getNodeFromPath (removeChild d root c0) root (i # p) =
        getNodeFromPath (removeChild d root c0) ?m p"
      using True assms(3) by (simp add: kids)
    also have "\<dots> = getNodeFromPath d ?m p"
      using below ne by (rule getNodeFromPath_removeChild_other)
    also have "\<dots> = getNodeFromPath d root ((i + 1) # p)"
      using idx assms(1) by simp
    finally show ?thesis .
  qed
qed

lemma doc5_consistent: "linked doc5"
  by (auto simp add: linked_def doc5_def split: if_splits)

lemma doc5_acyclic: "acyclic_below doc5 0"
  by (simp add: acyclic_below_def doc5_def)

lemma doc5_path: "getNodePath doc5 0 8 = Some (Some [2, 0])"
  unfolding getNodePath_def
  apply (subst getNodePath_loop.simps, simp add: doc5_def indexOf_def)
  apply (subst getNodePath_loop.simps, simp add: doc5_def indexOf_def)
  apply (subst getNodePath_loop.simps, simp add: doc5_def indexOf_def)
  done

lemma editor5_history:
  "history editor5 =
     \<lparr>undoStack = [\<lparr>html = [], selection = None, timestamp = 0\<rparr>,
                   \<lparr>html = ''<p>alpha</p>'', selection = None, timestamp = 310\<rparr>],
      redoStack = [], maxSize = 200, debounceTimer = Some 1, locked = False,
      timers = (\<lambda>_. None), nextTimer = 2\<rparr>"
  by (simp add: editor5_def run_def newHistoryManager_def DEFAULT_MAX_SIZE_def push_def doPush_def
      fire_def setTimeout_doPush_def Let_def fun_eq_iff)

section \<open>The claims\<close>

text \<open>
  Claim C1 says that after the first of five paragraphs is deleted, restoring a
  selection captured at offset 2 inside the third paragraph must fail.  The code does
  not: the address \<open>[2, 0]\<close> is positional, so \<open>getNodeFromPath\<close> resolves it to the text
  of the former fourth paragraph, and \<open>deserialize\<close> installs the caret there.
\<close>

theorem restore_selects_shifted_sibling:
  "serialize doc5 0 \<lparr>selectionObject = True, ranges = [caret 8 2]\<rparr> = Some (Some (address [2, 0] 2)) \<and>
   characterData doc5 8 = Some ''charlie'' \<and>
   deserialize (removeChild doc5 0 1) 0 (address [2, 0] 2) \<lparr>selectionObject = True, ranges = []\<rparr> =
     \<lparr>selectionObject = True, ranges = [caret 9 2]\<rparr> \<and>
   characterData (removeChild doc5 0 1) 9 = Some ''delta''"
proof -
  have "serialize doc5 0 \<lparr>selectionObject = True, ranges = [caret 8 2]\<rparr> =
      Some (Some (address [2, 0] 2))"
    by (simp add: serialize_def doc5_path caret_def address_def)
  moreover have "deserialize (removeChild doc5 0 1) 0 (address [2, 0] 2)
      \<lparr>selectionObject = True, ranges = []\<rparr> = \<lparr>selectionObject = True, ranges = [caret 9 2]\<rparr>"
    by (simp add: caret_def address_def deserialize_def removeChild_def doc5_def nodeLength_def
        toUint32_def)
  moreover have "characterData doc5 8 = Some ''charlie''"
    "characterData (removeChild doc5 0 1) 9 = Some ''delta''"
    by (simp_all add: removeChild_def doc5_def)
  ultimately show ?thesis by simp
qed

text \<open>
  Claim C1, as amended: after the first child of the root is removed, restoring a
  selection with a pre-deletion address is positional.  An endpoint path \<open>i # p\<close>
  resolves to the node that \<open>(i + 1) # p\<close> denoted before the removal, for the anchor
  and for the focus alike.  The restore changes nothing when either endpoint has no
  such node, when a stored offset (taken as an \<open>unsigned long\<close>) is greater than the
  length of the node found, or when the window has no selection object; otherwise it
  installs the selection at the two nodes found.
\<close>

theorem restore_after_delete_is_positional:
  assumes "childNodes d root = c0 # cs" and "acyclic_below d root" and "0 \<le> i" and "0 \<le> j"
  shows "getNodeFromPath (removeChild d root c0) root (i # p) = getNodeFromPath d root ((i + 1) # p) \<and>
         getNodeFromPath (removeChild d root c0) root (j # q) = getNodeFromPath d root ((j + 1) # q) \<and>
         (getNodeFromPath d root ((i + 1) # p) = None \<or> getNodeFromPath d root ((j + 1) # q) = None \<longrightarrow>
            deserialize (removeChild d root c0) root
              \<lparr>anchorPath = i # p, anchorOffset = ao, focusPath = j # q, focusOffset = fo\<rparr> w = w) \<and>
         (\<forall>a f. getNodeFromPath d root ((i + 1) # p) = Some a \<and>
                getNodeFromPath d root ((j + 1) # q) = Some f \<longrightarrow>
            deserialize (removeChild d root c0) root
              \<lparr>anchorPath = i # p, anchorOffset = ao, focusPath = j # q, focusOffset = fo\<rparr> w =
              (if toUint32 ao \<le> nodeLength (removeChild d root c0) a \<and>
                  toUint32 fo \<le> nodeLength (removeChild d root c0) f \<and> selectionObject w
               then w\<lparr>ranges := [installed a (i # p) (toUint32 ao) f (j # q) (toUint32 fo)]\<rparr>
               else w))"
proof -
  let ?d = "removeChild d root c0"
  let ?s = "\<lparr>anchorPath = i # p, anchorOffset = ao, focusPath = j # q, focusOffset = fo\<rparr>"
  have ap: "getNodeFromPath ?d root (i # p) = getNodeFromPath d root ((i + 1) # p)"
    using assms(1,2,3) by (rule getNodeFromPath_first_removed)
  have fp: "getNodeFromPath ?d root (j # q) = getNodeFromPath d root ((j + 1) # q)"
    using assms(1,2,4) by (rule getNodeFromPath_first_removed)
  have none: "deserialize ?d root ?s w = w"
    if "getNodeFromPath d root ((i + 1) # p) = None \<or> getNodeFromPath d root ((j + 1) # q) = None"
    using that ap fp by (intro deserialize_unresolved) (simp del: getNodeFromPath.simps)
  have some: "deserialize ?d root ?s w =
      (if toUint32 ao \<le> nodeLength ?d a \<and> toUint32 fo \<le> nodeLength ?d f \<and> selectionObject w
       then w\<lparr>ranges := [installed a (i # p) (toUint32 ao) f (j # q) (toUint32 fo)]\<rparr> else w)"
    if "getNodeFromPath d root ((i + 1) # p) = Some a" "getNodeFromPath d root ((j + 1) # q) = Some f"
    for a f
    using deserialize_resolved [of ?d root ?s a f w] that ap fp
    by (simp del: getNodeFromPath.simps)
  from ap fp none some show ?thesis by blast
qed

theorem restore_after_delete_is_positional_witness:
  "childNodes doc5 0 = 1 # [2, 3, 4, 5] \<and> acyclic_below doc5 0 \<and> (0::int) \<le> 2 \<and> (0::int) \<le> 3 \<and>
   getNodeFromPath (removeChild doc5 0 1) 0 [2, 0] = Some 9 \<and>
   getNodeFromPath (removeChild doc5 0 1) 0 [3, 0] = Some 10 \<and>
   deserialize (removeChild doc5 0 1) 0
     \<lparr>anchorPath = [2, 0], anchorOffset = 1, focusPath = [3, 0], focusOffset = 3\<rparr>
     \<lparr>selectionObject = True, ranges = []\<rparr> =
     \<lparr>selectionObject = True,
      ranges = [\<lparr>startContainer = 9, startOffset = 1, endContainer = 10, endOffset = 3\<rparr>]\<rparr> \<and>
   deserialize (removeChild doc5 0 1) 0
     \<lparr>anchorPath = [2, 0], anchorOffset = 4294967298, focusPath = [3, 0], focusOffset = 3\<rparr>
     \<lparr>selectionObject = True, ranges = []\<rparr> =
     \<lparr>selectionObject = True,
      ranges = [\<lparr>startContainer = 9, startOffset = 2, endContainer = 10, endOffset = 3\<rparr>]\<rparr> \<and>
   deserialize (removeChild doc5 0 1) 0
     \<lparr>anchorPath = [2, 0], anchorOffset = 1, focusPath = [3, 0], focusOffset = 3\<rparr>
     \<lparr>selectionObject = False, ranges = []\<rparr> = \<lparr>selectionObject = False, ranges = []\<rparr> \<and>
   getNodeFromPath doc5 0 [5, 0] = None \<and>
   deserialize (removeChild doc5 0 1) 0
     \<lparr>anchorPath = [2, 0], anchorOffset = 1, focusPath = [4, 0], focusOffset = 3\<rparr>
     \<lparr>selectionObject = True, ranges = []\<rparr> = \<lparr>selectionObject = True, ranges = []\<rparr>"
proof -
  have kids: "childNodes doc5 0 = 1 # [2, 3, 4, 5]" by (simp add: doc5_def)
  have i: "(0::int) \<le> 2" and j: "(0::int) \<le> 3" and k: "(0::int) \<le> 4" by simp_all
  have a: "getNodeFromPath doc5 0 [3, 0] = Some 9"
    and b: "getNodeFromPath doc5 0 [4, 0] = Some 10"
    and c: "getNodeFromPath doc5 0 [5, 0] = None"
    by (simp_all add: doc5_def)
  have len: "nodeLength (removeChild doc5 0 1) 9 = 5" "nodeLength (removeChild doc5 0 1) 10 = 4"
    by (simp_all add: nodeLength_def removeChild_def doc5_def)
  have u: "toUint32 1 = 1" "toUint32 3 = 3" "toUint32 4294967298 = 2"
    by (simp_all add: toUint32_def)
  have r: "installed 9 [2, 0] 1 10 [3, 0] 3 =
        \<lparr>startContainer = 9, startOffset = 1, endContainer = 10, endOffset = 3\<rparr>"
      "installed 9 [2, 0] 2 10 [3, 0] 3 =
        \<lparr>startContainer = 9, startOffset = 2, endContainer = 10, endOffset = 3\<rparr>"
    by (simp_all add: installed_def)
  from restore_after_delete_is_positional [OF kids doc5_acyclic i j, of "[0]" "[0]" 1 3
      "\<lparr>selectionObject = True, ranges = []\<rparr>"]
    restore_after_delete_is_positional [OF kids doc5_acyclic i j, of "[0]" "[0]" 4294967298 3
      "\<lparr>selectionObject = True, ranges = []\<rparr>"]
    restore_after_delete_is_positional [OF kids doc5_acyclic i j, of "[0]" "[0]" 1 3
      "\<lparr>selectionObject = False, ranges = []\<rparr>"]
    restore_after_delete_is_positional [OF kids doc5_acyclic i k, of "[0]" "[0]" 1 3
      "\<lparr>selectionObject = True, ranges = []\<rparr>"]
  show ?thesis
    using kids doc5_acyclic a b c len u r by (simp del: getNodeFromPath.simps)
qed

text \<open>
  Claim C2 asks that the lock is released on every exit path of a replay.  The two
  commands call \<open>lock\<close>, assign \<open>innerHTML\<close>, restore the selection and call
  \<open>unlock\<close> in sequence, with no \<open>finally\<close>: when the assignment throws, \<open>unlock\<close>
  is skipped.  Here the undo command runs on \<open>editor5\<close> in a browser whose setter
  throws: the exception leaves \<open>execute\<close>, \<open>CommandManager.exec\<close> logs it, the store
  stays locked, and a later push changes nothing.
\<close>

theorem replay_exception_leaves_lock_set:
  "map_option (\<lambda>(x, e). (x, locked (history e))) (undo_execute strictPlatform editor5 400) =
     Some (Some (Thrown ''TypeError''), True) \<and>
   map_option (\<lambda>e. (locked (history e), effects e)) (exec_undo strictPlatform editor5 400) =
     Some (True, [ConsoleError (Thrown ''TypeError'')]) \<and>
   map_option (\<lambda>e. push (history e) ''<p>typed later</p>'' None True 900 = history e)
     (exec_undo strictPlatform editor5 400) = Some True"
proof -
  have s: "serialize (document editor5) (editable editor5) (windowSelection editor5) = Some None"
    by (simp add: serialize_def editor5_def)
  have u: "undo_execute strictPlatform editor5 400 =
      Some (Some (Thrown ''TypeError''),
        editor5\<lparr>history := (history editor5)\<lparr>
          undoStack := [\<lparr>html = [], selection = None, timestamp = 0\<rparr>],
          redoStack := [\<lparr>html = get_innerHTML strictPlatform doc5 0, selection = None, timestamp = 400\<rparr>],
          locked := True\<rparr>\<rparr>)"
    unfolding undo_execute_def s
    by (simp add: editor5_history undo_def replay_def lock_def Let_def strictPlatform_def)
      (simp add: editor5_def)
  have e: "effects editor5 = []"
    by (simp add: editor5_def)
  show ?thesis
    unfolding exec_undo_def exec_command_def u
    by (simp add: editor5_history canUndo_def push_def e)
qed

text \<open>
  Claim C3: from an empty store of capacity \<open>n\<close>, after any sequence of pushes, timer
  firings, undos, redos, clears, locks and unlocks the undo stack holds at most \<open>n\<close>
  snapshots; and committing \<open>n + 5\<close> distinct contents one after the other (the first
  makes the one-element stack) leaves exactly \<open>n\<close> snapshots, the last \<open>n\<close> contents
  in order, the oldest five evicted.
\<close>

theorem undo_stack_never_exceeds_capacity:
  "(0 \<le> n \<longrightarrow> int (length (undoStack (run (newHistoryManager n) ops))) \<le> n) \<and>
   (1 \<le> n \<and> distinct (map fst xs) \<and> int (length xs) = n + 5 \<longrightarrow>
      int (length (undoStack (foldl (commit i) (newHistoryManager n) xs))) = n \<and>
      map html (undoStack (foldl (commit i) (newHistoryManager n) xs)) = drop 5 (map fst xs))"
proof (intro conjI impI)
  assume "0 \<le> n"
  then show "int (length (undoStack (run (newHistoryManager n) ops))) \<le> n"
    by (rule run_bounded)
next
  assume a: "1 \<le> n \<and> distinct (map fst xs) \<and> int (length xs) = n + 5"
  then have k: "length xs - nat n = 5" by linarith
  from a commits_contents [of n xs i]
  have c: "map html (undoStack (foldl (commit i) (newHistoryManager n) xs)) = drop 5 (map fst xs)"
    by (simp add: k)
  then show "map html (undoStack (foldl (commit i) (newHistoryManager n) xs)) = drop 5 (map fst xs)" .
  from arg_cong [OF c, of length] a
  show "int (length (undoStack (foldl (commit i) (newHistoryManager n) xs))) = n"
    by simp
qed

theorem undo_stack_never_exceeds_capacity_witness:
  "(0::int) \<le> 3 \<and>
   int (length (undoStack (run (newHistoryManager 3)
     [Push ''A'' None True 1, Push ''B'' None True 2, Push ''C'' None True 3,
      Undo ''C'' None 4, Redo ''C'' None 5, Redo ''C'' None 6, Push ''D'' None False 7,
      Fire 1 8, Clear, Push ''E'' None True 9]))) \<le> 3 \<and>
   distinct (map fst eight_edits) \<and> int (length eight_edits) = 3 + 5 \<and>
   int (length (undoStack (foldl (commit True) (newHistoryManager 3) eight_edits))) = 3 \<and>
   map html (undoStack (foldl (commit True) (newHistoryManager 3) eight_edits)) = [''F'', ''G'', ''H''] \<and>
   map html (undoStack (foldl (commit False) (newHistoryManager 3) eight_edits)) = [''F'', ''G'', ''H'']"
proof -
  have h: "(1::int) \<le> 3 \<and> distinct (map fst eight_edits) \<and> int (length eight_edits) = 3 + 5"
    by (simp add: eight_edits_def)
  have d: "drop 5 (map fst eight_edits) = [''F'', ''G'', ''H'']"
    by (simp add: eight_edits_def)
  from h undo_stack_never_exceeds_capacity [of 3 _ eight_edits True]
    undo_stack_never_exceeds_capacity [of 3 _ eight_edits False]
    undo_stack_never_exceeds_capacity [of 3
      "[Push ''A'' None True 1, Push ''B'' None True 2, Push ''C'' None True 3,
        Undo ''C'' None 4, Redo ''C'' None 5, Redo ''C'' None 6, Push ''D'' None False 7,
        Fire 1 8, Clear, Push ''E'' None True 9]" eight_edits True]
  show ?thesis
    by (simp add: d)
qed

text \<open>
  Claim C4: with a positive \<open>maxLength\<close> and a text longer than it, the change handler
  returns with the editor as it found it: no snapshot is pushed, no timer is armed, no
  event is emitted, and the document, over-length text included, stays as it is.
\<close>

theorem over_length_edit_dropped:
  assumes "0 < maxLength e"
    and "maxLength e < int (length (get_innerText P (document e) (editable e)))"
  shows "onContentChange P e now = Some e"
  using assms by (simp add: onContentChange_def)

theorem over_length_edit_dropped_witness:
  "0 < maxLength (editor5\<lparr>maxLength := 20\<rparr>) \<and>
   maxLength (editor5\<lparr>maxLength := 20\<rparr>) <
     int (length (get_innerText strictPlatform (document (editor5\<lparr>maxLength := 20\<rparr>))
       (editable (editor5\<lparr>maxLength := 20\<rparr>)))) \<and>
   onContentChange strictPlatform (editor5\<lparr>maxLength := 20\<rparr>) 500 = Some (editor5\<lparr>maxLength := 20\<rparr>)"
proof -
  have a: "0 < maxLength (editor5\<lparr>maxLength := 20\<rparr>)" by simp
  have b: "maxLength (editor5\<lparr>maxLength := 20\<rparr>) <
     int (length (get_innerText strictPlatform (document (editor5\<lparr>maxLength := 20\<rparr>))
       (editable (editor5\<lparr>maxLength := 20\<rparr>))))"
    by (simp add: editor5_def strictPlatform_def doc5_def paragraphText_def)
  from over_length_edit_dropped [OF a b, of 500] a b show ?thesis by simp
qed

text \<open>
  Claim C5: in a document whose parent and child links agree, for every node \<open>n\<close>
  under the root (the root is its \<open>k\<close>-th ancestor) \<open>getNodePath\<close> returns a path, and
  \<open>getNodeFromPath\<close> resolves that path to \<open>n\<close> again.  A caret at \<open>n\<close> with offset
  \<open>off\<close> serializes to that path with the same offset, and deserializing it on the
  same document puts the caret back at \<open>n\<close> and \<open>off\<close>.
\<close>

theorem address_round_trip:
  assumes "linked d"
    and "nthParent d n k = Some root"
  shows "\<exists>p. getNodePath d root n = Some (Some p) \<and> getNodeFromPath d root p = Some n \<and>
             serialize d root \<lparr>selectionObject = True, ranges = [caret n off]\<rparr> =
               Some (Some (address p off)) \<and>
             (off \<le> nodeLength d n \<and> selectionObject w \<longrightarrow>
                deserialize d root (address p off) w = w\<lparr>ranges := [caret n off]\<rparr>)"
proof -
  from getNodePath_loop_returns [OF assms, of "[]"] obtain p where
    p: "getNodePath d root n = Some (Some p)" and q: "getNodeFromPath d root p = Some n"
    by (auto simp add: getNodePath_def)
  have "serialize d root \<lparr>selectionObject = True, ranges = [caret n off]\<rparr> = Some (Some (address p off))"
    by (simp add: serialize_def caret_def address_def p)
  with p q show ?thesis
    by (auto simp add: deserialize_address nodeLength_uint32)
qed

theorem address_round_trip_witness:
  "linked doc5 \<and>
   nthParent doc5 8 2 = Some 0 \<and>
   getNodePath doc5 0 8 = Some (Some [2, 0]) \<and>
   getNodeFromPath doc5 0 [2, 0] = Some 8 \<and>
   deserialize doc5 0 (address [2, 0] 2) \<lparr>selectionObject = True, ranges = []\<rparr> =
     \<lparr>selectionObject = True, ranges = [caret 8 2]\<rparr>"
proof -
  have up: "nthParent doc5 8 2 = Some 0"
    by (simp add: doc5_def numeral_2_eq_2)
  have len: "(2::nat) \<le> nodeLength doc5 8"
    by (simp add: nodeLength_def doc5_def)
  from address_round_trip [OF doc5_consistent up, of 2 "\<lparr>selectionObject = True, ranges = []\<rparr>"]
  obtain p where "getNodePath doc5 0 8 = Some (Some p)" "getNodeFromPath doc5 0 p = Some 8"
    "deserialize doc5 0 (address p 2) \<lparr>selectionObject = True, ranges = []\<rparr> =
       \<lparr>selectionObject = True, ranges = [caret 8 2]\<rparr>"
    using len by auto
  then show ?thesis
    using doc5_consistent up by (simp add: doc5_path)
qed

text \<open>
  Claim C6 states the round trip for every store state.  With an empty undo stack
  \<open>undo\<close> returns \<open>null\<close> and records nothing, so the \<open>redo\<close> that follows returns
  whatever the redo stack held: here the content is \<open>''A''\<close> and \<open>redo\<close> returns an
  older snapshot of \<open>''B''\<close>.
\<close>

theorem undo_on_empty_stack_then_redo:
  "fst (undo (run (newHistoryManager 200)
          [Push ''A'' None True 1, Push ''B'' None True 2, Undo ''B'' None 3, Undo ''B'' None 4])
        ''A'' None 5) = None \<and>
   fst (redo (snd (undo (run (newHistoryManager 200)
          [Push ''A'' None True 1, Push ''B'' None True 2, Undo ''B'' None 3, Undo ''B'' None 4])
        ''A'' None 5)) ''A'' None 6) = Some \<lparr>html = ''B'', selection = None, timestamp = 4\<rparr>"
  by (simp add: run_def newHistoryManager_def push_def doPush_def undo_def redo_def Let_def)

text \<open>
  Claim C6, as amended: for every store state whose undo stack is not empty, \<open>undo\<close>
  returns the top snapshot, and a \<open>redo\<close> right after it returns a snapshot with
  exactly the content and selection that were passed to \<open>undo\<close>; the redo stack is
  then as it was before the \<open>undo\<close>.
\<close>

theorem undo_then_redo_restores:
  assumes "undoStack s \<noteq> []"
  shows "fst (undo s cc cs t1) = Some (last (undoStack s)) \<and>
         fst (redo (snd (undo s cc cs t1)) h' sel' t2) =
           Some \<lparr>html = cc, selection = cs, timestamp = t1\<rparr> \<and>
         redoStack (snd (redo (snd (undo s cc cs t1)) h' sel' t2)) = redoStack s \<and>
         undoStack (snd (redo (snd (undo s cc cs t1)) h' sel' t2)) =
           butlast (undoStack s) @ [\<lparr>html = h', selection = sel', timestamp = t2\<rparr>]"
  using assms by (simp add: undo_def redo_def Let_def)

theorem undo_then_redo_restores_witness:
  "undoStack (push (newHistoryManager 200) ''A'' None True 1) \<noteq> [] \<and>
   fst (redo (snd (undo (push (newHistoryManager 200) ''A'' None True 1) ''B'' None 2)) ''A'' None 3) =
     Some \<lparr>html = ''B'', selection = None, timestamp = 2\<rparr>"
proof -
  have h: "undoStack (push (newHistoryManager 200) ''A'' None True 1) \<noteq> []"
    by (simp add: newHistoryManager_def push_def doPush_def Let_def)
  show ?thesis
    using h undo_then_redo_restores [OF h, of "''B''" None 2 "''A''" None 3] by simp
qed

text \<open>
  Claim C7: while the store is locked, \<open>push\<close> with any arguments returns the store
  unchanged: neither stack changes and no timer is armed or cancelled.
\<close>

theorem push_locked_no_effect:
  "locked s \<Longrightarrow> push s h sel immediate now = s"
  by (simp add: push_def)

theorem push_locked_no_effect_witness:
  "locked (lock (newHistoryManager 200)) \<and>
   push (lock (newHistoryManager 200)) ''<p>x</p>'' None True 7 = lock (newHistoryManager 200) \<and>
   push (lock (newHistoryManager 200)) ''<p>x</p>'' None False 7 = lock (newHistoryManager 200)"
proof -
  have l: "locked (lock (newHistoryManager 200))" by (simp add: lock_def)
  show ?thesis
    using l push_locked_no_effect [OF l, of "''<p>x</p>''" None True 7]
      push_locked_no_effect [OF l, of "''<p>x</p>''" None False 7]
    by simp
qed

text \<open>
  Claim C8: pushing the same content twice in a row, both times immediately or both
  times debounced and settled, leaves both stacks as the first push left them.  When
  the store is unlocked, has a positive capacity and the content differs from the top
  of the undo stack, the two pushes together append exactly one snapshot, the one of
  the first push.
\<close>

theorem push_duplicate_idempotent:
  "undoStack (push (push s c sel1 True t1) c sel2 True t2) = undoStack (push s c sel1 True t1) \<and>
   redoStack (push (push s c sel1 True t1) c sel2 True t2) = redoStack (push s c sel1 True t1) \<and>
   undoStack (settle (push (settle (push s c sel1 False t1) t1') c sel2 False t2) t2') =
     undoStack (settle (push s c sel1 False t1) t1') \<and>
   redoStack (settle (push (settle (push s c sel1 False t1) t1') c sel2 False t2) t2') =
     redoStack (settle (push s c sel1 False t1) t1') \<and>
   (\<not> locked s \<and> 0 < maxSize s \<and> (undoStack s = [] \<or> html (last (undoStack s)) \<noteq> c) \<longrightarrow>
      undoStack (push (push s c sel1 True t1) c sel2 True t2) =
        trimmed (undoStack s @ [\<lparr>html = c, selection = sel1, timestamp = t1\<rparr>]) (maxSize s) \<and>
      undoStack (settle (push (settle (push s c sel1 False t1) t1') c sel2 False t2) t2') =
        trimmed (undoStack s @ [\<lparr>html = c, selection = sel1, timestamp = t1'\<rparr>]) (maxSize s))"
proof (cases "locked s")
  case True
  then show ?thesis by (simp add: push_locked settle_frame settle_settle)
next
  case False
  let ?a = "push s c sel1 True t1"
  let ?b = "settle (push s c sel1 False t1) t1'"
  have la: "\<not> locked ?a" and lb: "\<not> locked ?b"
    using False by (simp_all add: push_frame settle_frame)
  have ua: "undoStack ?a = undoStack (doPush s c sel1 t1)"
    and ra: "redoStack ?a = redoStack (doPush s c sel1 t1)"
    using False by (simp_all add: push_immediate_undoStack push_immediate_redoStack)
  have ub: "undoStack ?b = undoStack (doPush s c sel1 t1')"
    and rb: "redoStack ?b = redoStack (doPush s c sel1 t1')"
    using False by (simp_all add: settle_push_deferred_undoStack settle_push_deferred_redoStack)
  have ma: "maxSize ?a = maxSize s" and mb: "maxSize ?b = maxSize s"
    by (simp_all add: push_frame settle_frame)
  have ua2: "undoStack (push ?a c sel2 True t2) = undoStack (doPush (doPush s c sel1 t1) c sel2 t2)"
    unfolding push_immediate_undoStack [OF la]
    by (rule doPush_undoStack_cong) (simp_all add: ua ma doPush_frame)
  have ra2: "redoStack (push ?a c sel2 True t2) = redoStack (doPush (doPush s c sel1 t1) c sel2 t2)"
    unfolding push_immediate_redoStack [OF la]
    by (rule doPush_redoStack_cong) (simp_all add: ua ra)
  have ub2: "undoStack (settle (push ?b c sel2 False t2) t2') =
      undoStack (doPush (doPush s c sel1 t1') c sel2 t2')"
    unfolding settle_push_deferred_undoStack [OF lb]
    by (rule doPush_undoStack_cong) (simp_all add: ub mb doPush_frame)
  have rb2: "redoStack (settle (push ?b c sel2 False t2) t2') =
      redoStack (doPush (doPush s c sel1 t1') c sel2 t2')"
    unfolding settle_push_deferred_redoStack [OF lb]
    by (rule doPush_redoStack_cong) (simp_all add: ub rb)
  have one: "undoStack (doPush s c sel t) =
      trimmed (undoStack s @ [\<lparr>html = c, selection = sel, timestamp = t\<rparr>]) (maxSize s)"
    if "undoStack s = [] \<or> html (last (undoStack s)) \<noteq> c" for sel t
    using that by (auto simp add: doPush_undoStack trimmed_def)
  show ?thesis
    by (simp add: ua2 ra2 ub2 rb2 ua ra ub rb doPush_idem_undoStack doPush_idem_redoStack one)
qed

theorem push_duplicate_idempotent_witness:
  "\<not> locked (newHistoryManager 3) \<and> 0 < maxSize (newHistoryManager 3) \<and>
   undoStack (newHistoryManager 3) = [] \<and>
   undoStack (push (push (newHistoryManager 3) ''A'' None True 1) ''A'' None True 3) =
     [\<lparr>html = ''A'', selection = None, timestamp = 1\<rparr>] \<and>
   undoStack (settle (push (settle (push (newHistoryManager 3) ''A'' None False 1) 2) ''A'' None False 3) 4) =
     [\<lparr>html = ''A'', selection = None, timestamp = 2\<rparr>]"
proof -
  let ?s = "newHistoryManager 3"
  have h: "\<not> locked ?s \<and> 0 < maxSize ?s \<and> (undoStack ?s = [] \<or> html (last (undoStack ?s)) \<noteq> ''A'')"
    by (simp add: newHistoryManager_def)
  have e: "undoStack ?s = []" "maxSize ?s = 3"
    by (simp_all add: newHistoryManager_def)
  from h push_duplicate_idempotent [where s = ?s and c = "''A''"
      and ?sel1.0 = None and ?t1.0 = 1 and ?sel2.0 = None and ?t2.0 = 3 and t1' = 2 and t2' = 4]
  have "undoStack (push (push ?s ''A'' None True 1) ''A'' None True 3) =
          trimmed (undoStack ?s @ [\<lparr>html = ''A'', selection = None, timestamp = 1\<rparr>]) (maxSize ?s) \<and>
        undoStack (settle (push (settle (push ?s ''A'' None False 1) 2) ''A'' None False 3) 4) =
          trimmed (undoStack ?s @ [\<lparr>html = ''A'', selection = None, timestamp = 2\<rparr>]) (maxSize ?s)"
    by blast
  then show ?thesis
    using h by (simp add: e trimmed_def)
qed

text \<open>
  Claim C9: a debounced push made while the store is unlocked, followed by \<open>lock\<close>
  before the timer fires, still commits when the timer fires: the store is locked, the
  snapshot is appended to the undo stack (stamped with the firing time) and the redo
  stack is emptied.  The content differs from the top of the undo stack, so that the
  commit is not skipped as a duplicate.
\<close>

theorem debounced_commit_ignores_lock:
  assumes "\<not> locked s"
    and "undoStack s = [] \<or> html (last (undoStack s)) \<noteq> c"
  shows "locked (settle (lock (push s c sel False t0)) t1) \<and>
         undoStack (settle (lock (push s c sel False t0)) t1) =
           trimmed (undoStack s @ [\<lparr>html = c, selection = sel, timestamp = t1\<rparr>]) (maxSize s) \<and>
         redoStack (settle (lock (push s c sel False t0)) t1) = []"
proof -
  let ?p = "push s c sel False t0"
  have p: "?p = setTimeout_doPush (case debounceTimer s of Some t \<Rightarrow> clearTimeout s t | None \<Rightarrow> s) c sel"
    using assms(1) by (simp add: push_def)
  have "debounceTimer (lock ?p) = Some (nextTimer s)"
    by (simp add: p lock_def setTimeout_doPush_def clearTimeout_def split: option.splits)
  moreover have "timers (lock ?p) (nextTimer s) = Some (c, sel)"
    by (simp add: p lock_def setTimeout_doPush_def clearTimeout_def split: option.splits)
  ultimately have st: "settle (lock ?p) t1 =
      doPush ((lock ?p)\<lparr>timers := (timers (lock ?p))(nextTimer s := None)\<rparr>) c sel t1"
    by (simp add: settle_def fire_def)
  have u: "undoStack (lock ?p) = undoStack s" and r: "maxSize (lock ?p) = maxSize s"
    and l: "locked (lock ?p)"
    by (simp_all add: lock_def push_deferred_stacks push_frame)
  show ?thesis
    unfolding st using assms(2) u r l
    by (auto simp add: doPush_frame doPush_undoStack doPush_redoStack trimmed_def)
qed

theorem debounced_commit_ignores_lock_witness:
  "\<not> locked (snd (undo (push (push (newHistoryManager 200) ''A'' None True 1) ''B'' None True 2) ''C'' None 3)) \<and>
   redoStack (snd (undo (push (push (newHistoryManager 200) ''A'' None True 1) ''B'' None True 2) ''C'' None 3)) =
     [\<lparr>html = ''C'', selection = None, timestamp = 3\<rparr>] \<and>
   locked (settle (lock (push
     (snd (undo (push (push (newHistoryManager 200) ''A'' None True 1) ''B'' None True 2) ''C'' None 3))
     ''D'' None False 4)) 304) \<and>
   undoStack (settle (lock (push
     (snd (undo (push (push (newHistoryManager 200) ''A'' None True 1) ''B'' None True 2) ''C'' None 3))
     ''D'' None False 4)) 304) =
     [\<lparr>html = ''A'', selection = None, timestamp = 1\<rparr>,
      \<lparr>html = ''D'', selection = None, timestamp = 304\<rparr>] \<and>
   redoStack (settle (lock (push
     (snd (undo (push (push (newHistoryManager 200) ''A'' None True 1) ''B'' None True 2) ''C'' None 3))
     ''D'' None False 4)) 304) = []"
proof -
  let ?s = "snd (undo (push (push (newHistoryManager 200) ''A'' None True 1) ''B'' None True 2) ''C'' None 3)"
  have u: "undoStack ?s = [\<lparr>html = ''A'', selection = None, timestamp = 1\<rparr>]"
    and r: "redoStack ?s = [\<lparr>html = ''C'', selection = None, timestamp = 3\<rparr>]"
    and l: "\<not> locked ?s" and m: "maxSize ?s = 200"
    by (simp_all add: newHistoryManager_def push_def doPush_def undo_def Let_def)
  have h: "undoStack ?s = [] \<or> html (last (undoStack ?s)) \<noteq> ''D''"
    by (simp add: u)
  from debounced_commit_ignores_lock [OF l h, of None 4 304] l r
  show ?thesis
    by (simp add: u m trimmed_def)
qed

text \<open>
  Claim C10: a push whose content equals the content of the top undo snapshot changes
  neither stack, whether it is immediate, only armed, or debounced and settled: the
  redo stack keeps its snapshots (\<open>canRedo\<close> is unchanged) and the top snapshot keeps
  its selection and timestamp.  So the redo stack changes only on a push that is not
  such a duplicate.
\<close>

theorem duplicate_push_preserves_redo:
  assumes "undoStack s \<noteq> []" and "html (last (undoStack s)) = c"
  shows "undoStack (push s c sel immediate now) = undoStack s \<and>
         redoStack (push s c sel immediate now) = redoStack s \<and>
         canRedo (push s c sel immediate now) = canRedo s \<and>
         (\<not> locked s \<longrightarrow>
            undoStack (settle (push s c sel False now) now') = undoStack s \<and>
            redoStack (settle (push s c sel False now) now') = redoStack s \<and>
            canRedo (settle (push s c sel False now) now') = canRedo s)"
proof -
  have d: "undoStack (doPush s c sel t) = undoStack s" "redoStack (doPush s c sel t) = redoStack s" for t
    using assms by (simp_all add: doPush_dup)
  have i: "undoStack (push s c sel immediate now) = undoStack s \<and>
           redoStack (push s c sel immediate now) = redoStack s"
  proof (cases "locked s")
    case True
    then show ?thesis by (simp add: push_locked)
  next
    case False
    then show ?thesis
      by (cases immediate)
        (simp_all add: push_immediate_undoStack push_immediate_redoStack push_deferred_stacks d)
  qed
  have s: "undoStack (settle (push s c sel False now) now') = undoStack s \<and>
           redoStack (settle (push s c sel False now) now') = redoStack s" if "\<not> locked s"
    using that by (simp add: settle_push_deferred_undoStack settle_push_deferred_redoStack d)
  show ?thesis using i s by (simp add: canRedo_def)
qed

theorem duplicate_push_preserves_redo_witness:
  "undoStack (snd (undo (push (push (newHistoryManager 200) ''A'' None True 1) ''B'' None True 2) ''C'' None 3))
     = [\<lparr>html = ''A'', selection = None, timestamp = 1\<rparr>] \<and>
   redoStack (push (snd (undo (push (push (newHistoryManager 200) ''A'' None True 1) ''B'' None True 2) ''C'' None 3))
     ''A'' (Some \<lparr>anchorPath = [0], anchorOffset = 1, focusPath = [0], focusOffset = 1\<rparr>) True 9)
     = [\<lparr>html = ''C'', selection = None, timestamp = 3\<rparr>] \<and>
   undoStack (push (snd (undo (push (push (newHistoryManager 200) ''A'' None True 1) ''B'' None True 2) ''C'' None 3))
     ''A'' (Some \<lparr>anchorPath = [0], anchorOffset = 1, focusPath = [0], focusOffset = 1\<rparr>) True 9)
     = [\<lparr>html = ''A'', selection = None, timestamp = 1\<rparr>]"
proof -
  let ?s = "snd (undo (push (push (newHistoryManager 200) ''A'' None True 1) ''B'' None True 2) ''C'' None 3)"
  have u: "undoStack ?s = [\<lparr>html = ''A'', selection = None, timestamp = 1\<rparr>]"
    and r: "redoStack ?s = [\<lparr>html = ''C'', selection = None, timestamp = 3\<rparr>]"
    by (simp_all add: newHistoryManager_def push_def doPush_def undo_def Let_def)
  have h: "undoStack ?s \<noteq> []" "html (last (undoStack ?s)) = ''A''"
    by (simp_all add: u)
  show ?thesis
    using duplicate_push_preserves_redo [OF h, of "Some \<lparr>anchorPath = [0], anchorOffset = 1, focusPath = [0], focusOffset = 1\<rparr>" True 9] u r
    by simp
qed

section \<open>Further properties of the store, the paths and the replay\<close>

text \<open>
  The scenario with capacity 3: pushing A, B, C, D evicts A; \<open>undo\<close> with current
  content E returns D and leaves B, C with E on the redo stack; \<open>redo\<close> with current
  content D returns E and leaves B, C, D and an empty redo stack.
\<close>

lemma capacity_three_scenario:
  "map html (undoStack (run (newHistoryManager 3)
     [Push ''A'' None True 1, Push ''B'' None True 2, Push ''C'' None True 3, Push ''D'' None True 4]))
     = [''B'', ''C'', ''D''] \<and>
   map_option html (fst (undo (run (newHistoryManager 3)
     [Push ''A'' None True 1, Push ''B'' None True 2, Push ''C'' None True 3, Push ''D'' None True 4])
     ''E'' None 5)) = Some ''D'' \<and>
   map html (undoStack (run (newHistoryManager 3)
     [Push ''A'' None True 1, Push ''B'' None True 2, Push ''C'' None True 3, Push ''D'' None True 4,
      Undo ''E'' None 5])) = [''B'', ''C''] \<and>
   map html (redoStack (run (newHistoryManager 3)
     [Push ''A'' None True 1, Push ''B'' None True 2, Push ''C'' None True 3, Push ''D'' None True 4,
      Undo ''E'' None 5])) = [''E''] \<and>
   map_option html (fst (redo (run (newHistoryManager 3)
     [Push ''A'' None True 1, Push ''B'' None True 2, Push ''C'' None True 3, Push ''D'' None True 4,
      Undo ''E'' None 5]) ''D'' None 6)) = Some ''E'' \<and>
   map html (undoStack (run (newHistoryManager 3)
     [Push ''A'' None True 1, Push ''B'' None True 2, Push ''C'' None True 3, Push ''D'' None True 4,
      Undo ''E'' None 5, Redo ''D'' None 6])) = [''B'', ''C'', ''D''] \<and>
   redoStack (run (newHistoryManager 3)
     [Push ''A'' None True 1, Push ''B'' None True 2, Push ''C'' None True 3, Push ''D'' None True 4,
      Undo ''E'' None 5, Redo ''D'' None 6]) = []"
  by (simp add: run_def newHistoryManager_def push_def doPush_def undo_def redo_def Let_def)

text \<open>
  A store has at most one pending timer, so after \<open>clear\<close> no timer of the store is
  pending: a firing after \<open>clear\<close> commits nothing.
\<close>

lemma one_pending_step:
  assumes "one_pending s"
  shows "one_pending (step s a)"
proof (cases a)
  case (Push h sel immediate now)
  show ?thesis
  proof (cases "locked s")
    case True
    with assms Push show ?thesis by (simp add: push_locked)
  next
    case False
    show ?thesis
    proof (cases immediate)
      case True
      have "one_pending (case debounceTimer s of
             Some t \<Rightarrow> (clearTimeout s t)\<lparr>debounceTimer := None\<rparr> | None \<Rightarrow> s)"
        using assms by (auto simp add: one_pending_def clearTimeout_def split: option.splits)
      then show ?thesis
        using Push False True by (simp add: push_def one_pending_def doPush_frame)
    next
      case f: False
      show ?thesis
        using assms Push False f
        by (auto simp add: push_def one_pending_def setTimeout_doPush_def clearTimeout_def
            split: option.splits if_splits)
    qed
  qed
next
  case (Fire t now)
  show ?thesis
  proof (cases "timers s t")
    case None
    with assms Fire show ?thesis by (simp add: fire_def)
  next
    case (Some a)
    obtain h sel where "a = (h, sel)" by (cases a)
    with assms Fire Some show ?thesis
      by (auto simp add: fire_def one_pending_def doPush_frame split: if_splits)
  qed
next
  case (Undo h sel now)
  with assms show ?thesis by (simp add: undo_def one_pending_def Let_def)
next
  case (Redo h sel now)
  with assms show ?thesis by (simp add: redo_def one_pending_def Let_def)
next
  case Clear
  with assms show ?thesis
    by (auto simp add: clear_def one_pending_def clearTimeout_def Let_def split: option.splits)
next
  case Lock
  with assms show ?thesis by (simp add: lock_def one_pending_def)
next
  case Unlock
  with assms show ?thesis by (simp add: unlock_def one_pending_def)
qed

lemma one_pending_run: "one_pending s \<Longrightarrow> one_pending (run s ops)"
  unfolding run_def by (induction ops arbitrary: s) (simp_all add: one_pending_step)

lemma clear_no_timers: "one_pending s \<Longrightarrow> timers (clear s) t = None"
  by (auto simp add: clear_def one_pending_def clearTimeout_def Let_def split: option.splits)

lemma clear_cancels_pending_commit:
  "fire (clear (run (newHistoryManager n) ops)) t now = clear (run (newHistoryManager n) ops) \<and>
   undoStack (clear (run (newHistoryManager n) ops)) = [] \<and>
   redoStack (clear (run (newHistoryManager n) ops)) = []"
proof -
  have "one_pending (newHistoryManager n)"
    by (simp add: one_pending_def newHistoryManager_def)
  then have "one_pending (run (newHistoryManager n) ops)" by (rule one_pending_run)
  then have "timers (clear (run (newHistoryManager n) ops)) t = None" by (rule clear_no_timers)
  then show ?thesis by (simp add: fire_def) (simp add: clear_def Let_def clearTimeout_def split: option.splits)
qed

text \<open>
  Within a burst of debounced pushes the earlier timer is cancelled and only the last
  push commits.
\<close>

lemma last_push_of_burst_commits:
  assumes "\<not> locked s"
  shows "timers (push (push s c1 sel1 False t1) c2 sel2 False t2) (nextTimer s) = None \<and>
         undoStack (settle (push (push s c1 sel1 False t1) c2 sel2 False t2) t3) =
           undoStack (doPush s c2 sel2 t3) \<and>
         redoStack (settle (push (push s c1 sel1 False t1) c2 sel2 False t2) t3) =
           redoStack (doPush s c2 sel2 t3)"
proof -
  let ?p = "push s c1 sel1 False t1"
  have l: "\<not> locked ?p" using assms by (simp add: push_frame)
  have "timers (push ?p c2 sel2 False t2) (nextTimer s) = None"
    using assms
    by (cases "debounceTimer s") (simp_all add: push_def setTimeout_doPush_def clearTimeout_def)
  moreover have "undoStack (settle (push ?p c2 sel2 False t2) t3) = undoStack (doPush s c2 sel2 t3)"
    unfolding settle_push_deferred_undoStack [OF l]
    by (rule doPush_undoStack_cong) (simp_all add: push_deferred_stacks push_frame)
  moreover have "redoStack (settle (push ?p c2 sel2 False t2) t3) = redoStack (doPush s c2 sel2 t3)"
    unfolding settle_push_deferred_redoStack [OF l]
    by (rule doPush_redoStack_cong) (simp_all add: push_deferred_stacks)
  ultimately show ?thesis by simp
qed

text \<open>
  \<open>getNodeFromPath\<close> returns \<open>null\<close> exactly when some index of the path is out of
  range at the node reached so far.
\<close>

lemma getNodeFromPath_fails_iff_index_out_of_range:
  "getNodeFromPath d n p = None \<longleftrightarrow>
     (\<exists>q i r m. p = q @ i # r \<and> getNodeFromPath d n q = Some m \<and>
        \<not> (0 \<le> i \<and> nat i < length (childNodes d m)))"
proof (induction p arbitrary: n)
  case Nil
  show ?case by simp
next
  case (Cons j p)
  show ?case
  proof (cases "0 \<le> j \<and> nat j < length (childNodes d n)")
    case False
    have "j # p = [] @ j # p \<and> getNodeFromPath d n [] = Some n \<and>
        \<not> (0 \<le> j \<and> nat j < length (childNodes d n))"
      using False by simp
    then have "\<exists>q i r m. j # p = q @ i # r \<and> getNodeFromPath d n q = Some m \<and>
        \<not> (0 \<le> i \<and> nat i < length (childNodes d m))" by blast
    moreover have "getNodeFromPath d n (j # p) = None" using False by auto
    ultimately show ?thesis by blast
  next
    case True
    let ?c = "childNodes d n ! nat j"
    have "(\<exists>q i r m. j # p = q @ i # r \<and> getNodeFromPath d n q = Some m \<and>
        \<not> (0 \<le> i \<and> nat i < length (childNodes d m))) \<longleftrightarrow>
      (\<exists>q i r m. p = q @ i # r \<and> getNodeFromPath d ?c q = Some m \<and>
        \<not> (0 \<le> i \<and> nat i < length (childNodes d m)))" (is "?L \<longleftrightarrow> ?R")
    proof
      assume ?L
      then obtain q i r m where e: "j # p = q @ i # r" "getNodeFromPath d n q = Some m"
        "\<not> (0 \<le> i \<and> nat i < length (childNodes d m))" by blast
      show ?R
      proof (cases q)
        case Nil
        with e True show ?thesis by simp
      next
        case (Cons a q')
        with e True have "p = q' @ i # r" "getNodeFromPath d ?c q' = Some m" by simp_all
        with e(3) show ?thesis by blast
      qed
    next
      assume ?R
      then obtain q i r m where e: "p = q @ i # r" "getNodeFromPath d ?c q = Some m"
        "\<not> (0 \<le> i \<and> nat i < length (childNodes d m))" by blast
      then have "j # p = (j # q) @ i # r" "getNodeFromPath d n (j # q) = Some m"
        using True by simp_all
      with e(3) show ?L by blast
    qed
    with Cons.IH [of ?c] True show ?thesis by simp
  qed
qed

text \<open>
  A replay whose \<open>innerHTML\<close> assignment returns ends unlocked; one whose assignment
  throws ends locked, with the exception leaving \<open>execute\<close>.
\<close>

lemma replay_releases_lock:
  assumes "set_innerHTML P (document e) (windowSelection e) (editable e) (html snapshot) = Inr (d', w')"
  shows "fst (replay P e snapshot ev) = None \<and> \<not> locked (history (snd (replay P e snapshot ev))) \<and>
         document (snd (replay P e snapshot ev)) = d'"
  using assms by (simp add: replay_def lock_def unlock_def Let_def split: option.splits)

lemma replay_throw_keeps_lock:
  assumes "set_innerHTML P (document e) (windowSelection e) (editable e) (html snapshot) = Inl x"
  shows "fst (replay P e snapshot ev) = Some x \<and> locked (history (snd (replay P e snapshot ev)))"
  using assms by (simp add: replay_def lock_def Let_def)

text \<open>
  For contrast with C4: within the limit the same handler arms the debounced push and
  emits the change event.
\<close>

lemma within_limit_edit_recorded:
  "map_option (\<lambda>e. (effects e, timers (history e) 2))
     (onContentChange strictPlatform (editor5\<lparr>maxLength := 40\<rparr>) 500) =
   Some ([UpdateStatusBar, UpdatePlaceholder,
          EmitChange ''<p>alpha</p><p>bravo</p><p>charlie</p><p>delta</p><p>echo</p>''
            (get_innerText strictPlatform doc5 0),
          ToolbarRefresh],
         Some (''<p>alpha</p><p>bravo</p><p>charlie</p><p>delta</p><p>echo</p>'', None))"
proof -
  have s: "serialize doc5 0 \<lparr>selectionObject = True, ranges = []\<rparr> = Some None"
    by (simp add: serialize_def)
  have h: "get_innerHTML strictPlatform doc5 0 = ''<p>alpha</p><p>bravo</p><p>charlie</p><p>delta</p><p>echo</p>''"
    by (simp add: strictPlatform_def doc5_def paragraphText_def)
  have t: "length (get_innerText strictPlatform doc5 0) = 31"
    by (simp add: strictPlatform_def doc5_def paragraphText_def)
  show ?thesis
    by (simp add: onContentChange_def editor5_def s h t Let_def)
      (simp add: editor5_history [unfolded editor5_def, simplified] push_def setTimeout_doPush_def clearTimeout_def)
qed

end
